theory Spec2Isabelle
  imports Main "HOL-Library.Sublist" "HOL-Library.Multiset" "HOL-Library.Word"
begin

unbundle bit_operations_syntax

section \<open>Go values the package works on\<close>

text \<open>
  A Go \<^verbatim>\<open>string\<close> is a sequence of bytes: \<^typ>\<open>string\<close>. A \<^verbatim>\<open>rune\<close> is an
  \<^verbatim>\<open>int32\<close>.  A panic is a value of \<open>panic\<close>; every function that can panic
  returns \<open>panic + 'a\<close>, with \<open>Inl\<close> for the panic.
\<close>

type_synonym rune = "32 word"

datatype kind =
    Invalid | Bool | Int | Int8 | Int16 | Int32 | Int64
  | Uint | Uint8 | Uint16 | Uint32 | Uint64 | Uintptr
  | Float32 | Float64 | Complex64 | Complex128
  | Array | Chan | Func | Interface | Map | Pointer | Slice | String | Struct
  | UnsafePointer

datatype panic =
    Str string                \<comment> \<open>\<^verbatim>\<open>panic("...")\<close>: the panic value is the string\<close>
  | ValueError string kind    \<comment> \<open>reflect's \<^verbatim>\<open>&ValueError{Method, Kind}\<close>\<close>
  | RuntimeError string       \<comment> \<open>a run-time panic: nil dereference, index out of range\<close>

subsection \<open>reflect.Type\<close>

text \<open>
  What \<^verbatim>\<open>reflect\<close> tells about a type: a struct type with its name and its fields in
  declaration order, a pointer type with its element type, or a type of any other kind.
  A field has its declared name, its package path (empty exactly for an exported
  field: \<^verbatim>\<open>IsExported\<close> is \<^verbatim>\<open>f.PkgPath == ""\<close>), its type, and its tag, kept as
  the \<^verbatim>\<open>key:"value"\<close> pairs of the tag string in the order they are written.
\<close>

datatype rtype =
    StructT string "sfield list"
  | PointerT rtype
  | OtherT kind string
and sfield =
    StructField (Name: string) (PkgPath: string) (Type: rtype) (Tag: "(string \<times> string) list")

fun Kind :: "rtype \<Rightarrow> kind" where
  "Kind (StructT n fs) = Struct"
| "Kind (PointerT t) = Pointer"
| "Kind (OtherT k n) = k"

fun TypeString :: "rtype \<Rightarrow> string" where
  "TypeString (StructT n fs) = n"
| "TypeString (PointerT t) = ''*'' @ TypeString t"
| "TypeString (OtherT k n) = n"

definition IsExported :: "sfield \<Rightarrow> bool" where
  "IsExported f = (PkgPath f = [])"

text \<open>\<^verbatim>\<open>StructTag.Get\<close>: the value of the first pair with the key, the empty string
  when there is none.\<close>

fun Get :: "(string \<times> string) list \<Rightarrow> string \<Rightarrow> string" where
  "Get [] key = []"
| "Get ((k, v) # tag) key = (if k = key then v else Get tag key)"

text \<open>\<^verbatim>\<open>t.NumField()\<close> panics on a type that is not a struct; on a struct type the
  fields \<^verbatim>\<open>t.Field(0)\<close> to \<^verbatim>\<open>t.Field(t.NumField()-1)\<close> are its fields in order.\<close>

definition NumField :: "rtype \<Rightarrow> panic + sfield list" where
  "NumField t =
     (case t of
        StructT n fs \<Rightarrow> Inr fs
      | _ \<Rightarrow> Inl (Str (''reflect: NumField of non-struct type '' @ TypeString t)))"

subsection \<open>Values and reflect.Value\<close>

text \<open>
  A Go value in an interface (an argument of type \<^verbatim>\<open>any\<close>): nil, a struct (its type's name,
  and each field with its value), a pointer (its element type, and nil or a reference),
  or a value of another type.  A reference is a variable of the store or a field of a
  referenced struct; the store is the list of the variables' values.
\<close>

datatype ref = VarRef nat | FieldRef ref nat

datatype gval =
    NilV
  | ScalarV rtype string
  | StructV string "(sfield \<times> gval) list"
  | PtrV rtype "ref option"

type_synonym store = "gval list"

fun TypeOf :: "gval \<Rightarrow> rtype option" where
  "TypeOf NilV = None"
| "TypeOf (ScalarV t x) = Some t"
| "TypeOf (StructV n fvs) = Some (StructT n (map fst fvs))"
| "TypeOf (PtrV t r) = Some (PointerT t)"

fun load :: "store \<Rightarrow> ref \<Rightarrow> gval option" where
  "load s (VarRef a) = (if a < length s then Some (s ! a) else None)"
| "load s (FieldRef r i) =
     (case load s r of
        Some (StructV n fvs) \<Rightarrow> if i < length fvs then Some (snd (fvs ! i)) else None
      | _ \<Rightarrow> None)"

text \<open>
  A \<^verbatim>\<open>reflect.Value\<close>: the zero Value, or a value with its type, the reference it was
  reached through when it is addressable, and the flag of a value obtained through an
  unexported field.  The methods panic as those of \<^verbatim>\<open>reflect\<close> do.  A reference that
  the store does not hold does not occur in Go; \<open>Elem\<close> makes it a run-time panic.
\<close>

datatype Value = ZeroValue | Val rtype gval "ref option" bool

fun ValueOf :: "gval \<Rightarrow> Value" where
  "ValueOf NilV = ZeroValue"
| "ValueOf (ScalarV t x) = Val t (ScalarV t x) None False"
| "ValueOf (StructV n fvs) = Val (StructT n (map fst fvs)) (StructV n fvs) None False"
| "ValueOf (PtrV t r) = Val (PointerT t) (PtrV t r) None False"

fun Value_Type :: "Value \<Rightarrow> panic + rtype" where
  "Value_Type ZeroValue = Inl (ValueError ''reflect.Value.Type'' Invalid)"
| "Value_Type (Val t x a ro) = Inr t"

fun Value_Elem :: "store \<Rightarrow> Value \<Rightarrow> panic + Value" where
  "Value_Elem s ZeroValue = Inl (ValueError ''reflect.Value.Elem'' Invalid)"
| "Value_Elem s (Val t (PtrV e None) a ro) = Inr ZeroValue"
| "Value_Elem s (Val t (PtrV e (Some r)) a ro) =
     (case load s r of
        Some x \<Rightarrow> Inr (Val e x (Some r) ro)
      | None \<Rightarrow> Inl (RuntimeError ''invalid memory address or nil pointer dereference''))"
| "Value_Elem s (Val t x a ro) = Inl (ValueError ''reflect.Value.Elem'' (Kind t))"

fun Value_Field :: "Value \<Rightarrow> nat \<Rightarrow> panic + Value" where
  "Value_Field ZeroValue i = Inl (ValueError ''reflect.Value.Field'' Invalid)"
| "Value_Field (Val t x a ro) i =
     (if Kind t \<noteq> Struct then Inl (ValueError ''reflect.Value.Field'' (Kind t))
      else case x of
        StructV n fvs \<Rightarrow>
          if \<not> i < length fvs then Inl (Str ''reflect: Field index out of range'')
          else Inr (Val (Type (fst (fvs ! i))) (snd (fvs ! i))
                     (map_option (\<lambda>r. FieldRef r i) a)
                     (ro \<or> \<not> IsExported (fst (fvs ! i))))
      | _ \<Rightarrow> Inl (ValueError ''reflect.Value.Field'' Invalid))"

fun Value_Addr :: "Value \<Rightarrow> panic + Value" where
  "Value_Addr (Val t x (Some r) ro) = Inr (Val (PointerT t) (PtrV t (Some r)) None ro)"
| "Value_Addr v = Inl (Str ''reflect.Value.Addr of unaddressable value'')"

fun Value_Interface :: "Value \<Rightarrow> panic + gval" where
  "Value_Interface ZeroValue = Inl (ValueError ''reflect.Value.Interface'' Invalid)"
| "Value_Interface (Val t x a ro) =
     (if ro
      then Inl (Str ''reflect.Value.Interface: cannot return value obtained from unexported field or method'')
      else Inr x)"

text \<open>
  The type \<^verbatim>\<open>reflect.Value\<close> itself is a struct with three unexported fields: it is
  what \<^verbatim>\<open>reflect.TypeOf\<close> returns for a variable that holds a \<^verbatim>\<open>reflect.Value\<close>.
\<close>

definition reflect_Value :: rtype where
  "reflect_Value =
     StructT ''reflect.Value''
       [StructField ''typ_'' ''reflect'' (PointerT (OtherT Struct ''abi.Type'')) [],
        StructField ''ptr'' ''reflect'' (OtherT UnsafePointer ''unsafe.Pointer'') [],
        StructField ''flag'' ''reflect'' (OtherT Uintptr ''reflect.flag'') []]"

subsection \<open>The strings package\<close>

text \<open>
  \<^verbatim>\<open>strings.ToLower\<close> as it works on a string of ASCII bytes: the letters A to Z are
  mapped to a to z (\<^verbatim>\<open>c += 'a' - 'A'\<close>), every other byte is kept.  (On a string with
  bytes from 0x80 on, Go maps each Unicode letter to its lower case; here these bytes
  are kept too.)
\<close>

definition lower_byte :: "char \<Rightarrow> char" where
  "lower_byte c =
     (if of_char CHR ''A'' \<le> (of_char c :: nat) \<and> (of_char c :: nat) \<le> of_char CHR ''Z''
      then char_of ((of_char c :: nat) + 32) else c)"

definition ToLower :: "string \<Rightarrow> string" where
  "ToLower s = map lower_byte s"

definition HasSuffix :: "string \<Rightarrow> string \<Rightarrow> bool" where
  "HasSuffix s suf = suffix suf s"

fun Join :: "string list \<Rightarrow> string \<Rightarrow> string" where
  "Join [] sep = []"
| "Join [e] sep = e"
| "Join (e # es) sep = e @ sep @ Join es sep"

text \<open>
  \<^verbatim>\<open>WriteRune\<close> appends the UTF-8 encoding of the rune, and \<^verbatim>\<open>string(r)\<close> is the same
  encoding; a rune that is no Unicode code point is written as U+FFFD.
  \<^verbatim>\<open>Grow\<close> panics on a negative count.
\<close>

definition EncodeRune :: "rune \<Rightarrow> string" where
  "EncodeRune r =
     (let i = unat r in
      if i \<le> 0x7F then [char_of i]
      else if i \<le> 0x7FF then [char_of (0xC0 OR drop_bit 6 i), char_of (0x80 OR (i AND 0x3F))]
      else if i > 0x10FFFF \<or> (0xD800 \<le> i \<and> i \<le> 0xDFFF)
        then [char_of (0xEF :: nat), char_of (0xBF :: nat), char_of (0xBD :: nat)]
      else if i \<le> 0xFFFF
        then [char_of (0xE0 OR drop_bit 12 i), char_of (0x80 OR (drop_bit 6 i AND 0x3F)),
              char_of (0x80 OR (i AND 0x3F))]
      else [char_of (0xF0 OR drop_bit 18 i), char_of (0x80 OR (drop_bit 12 i AND 0x3F)),
            char_of (0x80 OR (drop_bit 6 i AND 0x3F)), char_of (0x80 OR (i AND 0x3F))])"

definition Grow :: "int \<Rightarrow> panic + unit" where
  "Grow n = (if n < 0 then Inl (Str ''strings.Builder.Grow: negative count'') else Inr ())"

section \<open>mapper.go\<close>

type_synonym FieldMapper = "string \<Rightarrow> string"

definition Direct :: FieldMapper where
  "Direct field = field"

text \<open>The struct \<^verbatim>\<open>mapper\<close>.  The Go field \<^verbatim>\<open>fields\<close> is \<open>fields'\<close> here (the record
  package keeps the name \<open>fields\<close> for itself); it holds field positions, and only
  loop indices are ever appended, so they are naturals.  \<open>target\<close> and
  \<open>FieldMapper\<close> can be nil.\<close>

record mapper =
  fields' :: "nat list"
  cols :: "string list"
  target :: "rtype option"
  Comma :: rune
  Mark :: rune
  FieldMapper :: "FieldMapper option"

subsection \<open>fieldSlice\<close>

fun joker :: "string list \<Rightarrow> bool" where
  "joker [] = False"
| "joker (f # fs) = (if f = ''*'' then True else joker fs)"

text \<open>\<^verbatim>\<open>index\<close> returns an \<^verbatim>\<open>int\<close>: the first position of the name, or -1.\<close>

fun index_from :: "int \<Rightarrow> string list \<Rightarrow> string \<Rightarrow> int" where
  "index_from i [] name = -1"
| "index_from i (f # fs) name = (if f = name then i else index_from (i + 1) fs name)"

definition index :: "string list \<Rightarrow> string \<Rightarrow> int" where
  "index fs name = index_from 0 fs name"

subsection \<open>MapperWithKey\<close>

text \<open>The delete-without-preserving-order of the loop:
  \<^verbatim>\<open>columns[i] = columns[len(columns)-1]; columns = columns[:len(columns)-1]\<close>.\<close>

definition swap_remove :: "string list \<Rightarrow> nat \<Rightarrow> string list" where
  "swap_remove columns i = butlast (columns[i := last columns])"

text \<open>
  The body of the \<^verbatim>\<open>for\<close> loop over the fields, from field \<open>i\<close> on: the remaining
  fields, the loop index, and the state the loop changes (the working slice
  \<open>columns\<close> and the mapper \<open>m\<close>).
\<close>

fun MapperLoop ::
  "string \<Rightarrow> bool \<Rightarrow> sfield list \<Rightarrow> nat \<Rightarrow> string list \<Rightarrow> mapper \<Rightarrow> panic + (string list \<times> mapper)"
where
  "MapperLoop key jk [] i columns m = Inr (columns, m)"
| "MapperLoop key jk (f # rest) i columns m =
     (if IsExported f then
        (let t = Get (Tag f) key in
         if t \<noteq> [] \<and> HasSuffix t '',ignore'' then MapperLoop key jk rest (i + 1) columns m
         else
           (let col = (if t \<noteq> [] then t
                       else case FieldMapper m of Some fm \<Rightarrow> fm (Name f) | None \<Rightarrow> Name f)
            in if \<not> jk \<and> index columns col = -1 then MapperLoop key jk rest (i + 1) columns m
               else
                 (let columns' = (if \<not> jk then swap_remove columns (nat (index columns col))
                                  else columns)
                  in if index (cols m) col \<noteq> -1
                     then Inl (Str (''Field '' @ col @ '' is mapped more than once''))
                     else MapperLoop key jk rest (i + 1) columns'
                            (m\<lparr>cols := cols m @ [col], fields' := fields' m @ [i]\<rparr>))))
      else MapperLoop key jk rest (i + 1) columns m)"

text \<open>
  \<^verbatim>\<open>MapperWithKey\<close> returns a pointer to a mapper it has just allocated; the model
  returns that mapper.  \<^verbatim>\<open>t\<close> stays the type of \<^verbatim>\<open>target\<close> itself: the kind \<^verbatim>\<open>k\<close> is
  taken from \<^verbatim>\<open>t.Elem()\<close> for a pointer, and the loop then reads \<^verbatim>\<open>t.NumField()\<close> and
  \<^verbatim>\<open>t.Field(i)\<close> of \<^verbatim>\<open>t\<close>.
\<close>

definition MapperWithKey :: "gval \<Rightarrow> string \<Rightarrow> string list \<Rightarrow> panic + mapper" where
  "MapperWithKey tgt key columns =
     (if key = [] then Inl (Str ''Mapper MUST have a non empty struct tag key.'')
      else case TypeOf tgt of
        None \<Rightarrow> Inl (RuntimeError ''invalid memory address or nil pointer dereference'')
      | Some t \<Rightarrow>
         (let k = Kind t;
              k = (if k = Pointer then (case t of PointerT e \<Rightarrow> Kind e | _ \<Rightarrow> k) else k)
          in if k \<noteq> Struct
             then Inl (Str ''Mapper first argument MUST be a struct or a struct pointer'')
             else
               (let m = \<lparr>fields' = [], cols = [], target = Some t, Comma = 44, Mark = 63,
                         FieldMapper = Some ToLower\<rparr>
                in if length columns = 0 then Inl (Str ''Mapper MUST select at least one field'')
                   else
                     (let jk = joker columns
                      in case NumField t of
                           Inl e \<Rightarrow> Inl e
                         | Inr fs \<Rightarrow>
                            (case MapperLoop key jk fs 0 columns m of
                               Inl e \<Rightarrow> Inl e
                             | Inr (columns', m') \<Rightarrow>
                                 if \<not> jk \<and> length columns' \<noteq> 0
                                 then Inl (Str (''Some fields are missing from target: ''
                                                @ Join columns' '',''))
                                 else Inr m')))))"

definition Mapper :: "gval \<Rightarrow> string list \<Rightarrow> panic + mapper" where
  "Mapper tgt columns = MapperWithKey tgt ''mapper'' columns"

definition Columns :: "mapper \<Rightarrow> string list" where
  "Columns m = cols m"


subsection \<open>Subset\<close>

text \<open>
  \<^verbatim>\<open>Subset\<close> takes and returns pointers, and whether the result is the receiver or a
  new object is part of what it does.  The mapper objects live in a heap, a list of
  mappers; a pointer is a position in it, and a position outside the heap stands for
  nil.  An allocation appends to the heap.
\<close>

type_synonym heap = "mapper list"

text \<open>The \<^verbatim>\<open>range m.cols\<close> loop, from position \<open>i\<close> on; \<^verbatim>\<open>m.fields[i]\<close> panics out of
  range.\<close>

fun SubsetLoop ::
  "string list \<Rightarrow> nat list \<Rightarrow> nat \<Rightarrow> string list \<Rightarrow> mapper \<Rightarrow> panic + mapper"
where
  "SubsetLoop columns mfields i [] nm = Inr nm"
| "SubsetLoop columns mfields i (c # rest) nm =
     (if index columns c \<noteq> -1 then
        (if i < length mfields
         then SubsetLoop columns mfields (i + 1) rest
                (nm\<lparr>cols := cols nm @ [c], fields' := fields' nm @ [mfields ! i]\<rparr>)
         else Inl (RuntimeError ''index out of range''))
      else SubsetLoop columns mfields (i + 1) rest nm)"

definition Subset :: "heap \<Rightarrow> nat \<Rightarrow> string list \<Rightarrow> panic + (heap \<times> nat)" where
  "Subset h p columns =
     (if \<not> p < length h
      then Inl (RuntimeError ''invalid memory address or nil pointer dereference'')
      else
        (let m = h ! p;
             nm = \<lparr>fields' = [], cols = [], target = target m, Comma = Comma m,
                   Mark = Mark m, FieldMapper = FieldMapper m\<rparr>
         in if length columns = 0 then Inr (h @ [nm], length h)
            else if joker columns then Inr (h @ [nm], p)
            else case SubsetLoop columns (fields' m) 0 (cols m) nm of
                   Inl e \<Rightarrow> Inl e
                 | Inr nm' \<Rightarrow> Inr (h @ [nm'], length h)))"

subsection \<open>ColumnsString, ColumnsStringPrefix and Marks\<close>

text \<open>The loops over \<^verbatim>\<open>m.cols[1:]\<close>, with the builder's content \<open>b\<close>.\<close>

fun WriteCols :: "rune \<Rightarrow> string \<Rightarrow> string \<Rightarrow> string list \<Rightarrow> string" where
  "WriteCols comma pfx b [] = b"
| "WriteCols comma pfx b (s # ss) = WriteCols comma pfx (b @ EncodeRune comma @ (pfx @ s)) ss"

definition ColumnsString :: "mapper \<Rightarrow> panic + string" where
  "ColumnsString m =
     (if length (cols m) = 1 then Inr (cols m ! 0)
      else
        (let n = int (length (cols m)) - 1 + sum_list (map (\<lambda>c. int (length c)) (cols m))
         in case Grow n of
              Inl e \<Rightarrow> Inl e
            | Inr u \<Rightarrow>
               (case cols m of
                  [] \<Rightarrow> Inl (RuntimeError ''index out of range'')
                | c # rest \<Rightarrow> Inr (WriteCols (Comma m) [] c rest))))"

definition ColumnsStringPrefix :: "mapper \<Rightarrow> string \<Rightarrow> panic + string" where
  "ColumnsStringPrefix m pfx =
     (if length (cols m) = 1 then Inr (pfx @ cols m ! 0)
      else
        (let n = int (length (cols m)) - 1
                 + sum_list (map (\<lambda>c. int (length c) + int (length pfx)) (cols m))
         in case Grow n of
              Inl e \<Rightarrow> Inl e
            | Inr u \<Rightarrow>
               (case cols m of
                  [] \<Rightarrow> Inl (RuntimeError ''index out of range'')
                | c # rest \<Rightarrow> Inr (WriteCols (Comma m) pfx (pfx @ c) rest))))"

text \<open>The loop \<^verbatim>\<open>for i := 0; i < len(m.cols)-1; i++\<close> of \<^verbatim>\<open>Marks\<close>, by the number of
  rounds left.\<close>

fun MarksLoop :: "rune \<Rightarrow> rune \<Rightarrow> nat \<Rightarrow> string \<Rightarrow> string" where
  "MarksLoop comma mark 0 b = b"
| "MarksLoop comma mark (Suc k) b = MarksLoop comma mark k (b @ EncodeRune comma @ EncodeRune mark)"

definition Marks :: "mapper \<Rightarrow> panic + string" where
  "Marks m =
     (if length (cols m) = 1 then Inr (EncodeRune (Mark m))
      else
        (let n = 2 * int (length (cols m)) - 1
         in case Grow n of
              Inl e \<Rightarrow> Inl e
            | Inr u \<Rightarrow> Inr (MarksLoop (Comma m) (Mark m) (length (cols m) - 1) (EncodeRune (Mark m)))))"

subsection \<open>Addrs and Values\<close>

text \<open>The loop \<^verbatim>\<open>for _, i := range m.fields\<close> of \<^verbatim>\<open>Addrs\<close>, with the result so far.\<close>

fun AddrsLoop :: "Value \<Rightarrow> nat list \<Rightarrow> gval list \<Rightarrow> panic + gval list" where
  "AddrsLoop v [] res = Inr res"
| "AddrsLoop v (i # is) res =
     (case Value_Field v i of
        Inl e \<Rightarrow> Inl e
      | Inr f \<Rightarrow>
         (case Value_Addr f of
            Inl e \<Rightarrow> Inl e
          | Inr a \<Rightarrow>
             (case Value_Interface a of
                Inl e \<Rightarrow> Inl e
              | Inr x \<Rightarrow> AddrsLoop v is (res @ [x]))))"

definition Addrs :: "store \<Rightarrow> mapper \<Rightarrow> gval \<Rightarrow> panic + gval list" where
  "Addrs s m dest =
     (let v = ValueOf dest
      in case Value_Type v of
           Inl e \<Rightarrow> Inl e
         | Inr t \<Rightarrow>
            if Kind t \<noteq> Pointer then Inl (Str ''destination not a pointer'')
            else case Value_Elem s v of
                   Inl e \<Rightarrow> Inl e
                 | Inr v \<Rightarrow>
                    (case Value_Type v of
                       Inl e \<Rightarrow> Inl e
                     | Inr t \<Rightarrow>
                        if Kind t \<noteq> Struct then Inl (Str ''destination not a struct pointer'')
                        else AddrsLoop v (fields' m) []))"

text \<open>
  In \<^verbatim>\<open>Values\<close> the second test is \<^verbatim>\<open>reflect.TypeOf(v).Kind() != reflect.Struct\<close>, on the
  variable \<^verbatim>\<open>v\<close> itself, whose type is \<^verbatim>\<open>reflect.Value\<close>.
\<close>

fun ValuesLoop :: "Value \<Rightarrow> nat list \<Rightarrow> gval list \<Rightarrow> panic + gval list" where
  "ValuesLoop v [] res = Inr res"
| "ValuesLoop v (i # is) res =
     (case Value_Field v i of
        Inl e \<Rightarrow> Inl e
      | Inr f \<Rightarrow>
         (case Value_Interface f of
            Inl e \<Rightarrow> Inl e
          | Inr x \<Rightarrow> ValuesLoop v is (res @ [x])))"

definition Values :: "store \<Rightarrow> mapper \<Rightarrow> gval \<Rightarrow> panic + gval list" where
  "Values s m dest =
     (let v = ValueOf dest
      in case TypeOf dest of
           None \<Rightarrow> Inl (RuntimeError ''invalid memory address or nil pointer dereference'')
         | Some t \<Rightarrow>
            (case (if Kind t = Pointer then Value_Elem s v else Inr v) of
               Inl e \<Rightarrow> Inl e
             | Inr v \<Rightarrow>
                if Kind reflect_Value \<noteq> Struct then Inl (Str ''destination not a struct'')
                else ValuesLoop v (fields' m) []))"

section \<open>options.go\<close>

type_synonym MapperOption = "mapper \<Rightarrow> mapper"

definition WithFieldMapper :: "FieldMapper option \<Rightarrow> MapperOption" where
  "WithFieldMapper fm =
     (let fm = (case fm of None \<Rightarrow> Direct | Some f \<Rightarrow> f) in (\<lambda>m. m\<lparr>FieldMapper := Some fm\<rparr>))"

definition WithComma :: "rune \<Rightarrow> MapperOption" where
  "WithComma comma = (\<lambda>m. m\<lparr>Comma := comma\<rparr>)"

definition WithMark :: "rune \<Rightarrow> MapperOption" where
  "WithMark mark = (\<lambda>m. m\<lparr>Mark := mark\<rparr>)"

fun SetOptions :: "mapper \<Rightarrow> MapperOption list \<Rightarrow> mapper" where
  "SetOptions m [] = m"
| "SetOptions m (opt # opts) = SetOptions (opt m) opts"

section \<open>What the specification speaks of\<close>

text \<open>
  The words of the claims, as definitions.  A field is ignored when its tag value under
  the key ends with \<^verbatim>\<open>,ignore\<close>; it is a candidate when it is exported and not
  ignored; its resolved name is its tag value under the key when that is not empty,
  and its lowercased declared name otherwise.
\<close>

definition ignored :: "string \<Rightarrow> sfield \<Rightarrow> bool" where
  "ignored key f = suffix '',ignore'' (Get (Tag f) key)"

definition candidate :: "string \<Rightarrow> sfield \<Rightarrow> bool" where
  "candidate key f = (IsExported f \<and> \<not> ignored key f)"

definition resolved :: "string \<Rightarrow> sfield \<Rightarrow> string" where
  "resolved key f = (if Get (Tag f) key \<noteq> [] then Get (Tag f) key else ToLower (Name f))"

text \<open>
  The field at position \<open>j\<close> is selected by a request: it is a candidate and, unless the
  request has the wildcard, its resolved name is requested and no candidate before it
  resolves to the same name.
\<close>

definition selects :: "string \<Rightarrow> string list \<Rightarrow> sfield list \<Rightarrow> nat \<Rightarrow> bool" where
  "selects key columns fs j =
     (candidate key (fs ! j) \<and>
      (joker columns \<or>
       (resolved key (fs ! j) \<in> set columns \<and>
        (\<forall>k \<in> set [0..<j].
           \<not> (candidate key (fs ! k) \<and> resolved key (fs ! k) = resolved key (fs ! j))))))"

text \<open>The mapper as \<^verbatim>\<open>MapperWithKey\<close> sets it up before its loop.\<close>

definition init_mapper :: "rtype \<Rightarrow> mapper" where
  "init_mapper t =
     \<lparr>fields' = [], cols = [], target = Some t, Comma = 44, Mark = 63,
      FieldMapper = Some ToLower\<rparr>"

text \<open>The two messages of \<^verbatim>\<open>MapperWithKey\<close>'s loop and of its last test.\<close>

definition duplicate_msg :: "string \<Rightarrow> panic" where
  "duplicate_msg col = Str (''Field '' @ col @ '' is mapped more than once'')"

definition missing_msg :: "string list \<Rightarrow> panic" where
  "missing_msg names = Str (''Some fields are missing from target: '' @ Join names '','')"

text \<open>What holds before each round when the fields \<open>pre\<close> are done: the loop invariant.\<close>

definition loop_inv :: "string \<Rightarrow> string list \<Rightarrow> sfield list \<Rightarrow> nat \<Rightarrow> string list \<Rightarrow> mapper \<Rightarrow> bool" where
  "loop_inv key columns fs i w m =
     (fields' m = filter (selects key columns fs) [0..<i]
      \<and> cols m = map (\<lambda>j. resolved key (fs ! j)) (fields' m)
      \<and> distinct (cols m)
      \<and> (if joker columns then w = columns else mset w = mset columns - mset (cols m))
      \<and> FieldMapper m = Some ToLower)"

text \<open>
  Splitting a string on a separator and stripping a prefix, as \<^verbatim>\<open>strings.Split\<close> and
  \<^verbatim>\<open>strings.TrimPrefix\<close> of the Go library do.  \<open>Split_from\<close> scans the string for the next
  occurrence of the separator, with the piece read so far; on the empty separator
  \<^verbatim>\<open>strings.Split\<close> explodes the string (here into its bytes), a case that no rune's
  encoding leads to.
\<close>

function Split_from :: "string \<Rightarrow> string \<Rightarrow> string \<Rightarrow> string list" where
  "Split_from sep acc [] = [acc]"
| "Split_from sep acc (x # xs) =
     (if sep \<noteq> [] \<and> prefix sep (x # xs)
      then acc # Split_from sep [] (drop (length sep) (x # xs))
      else Split_from sep (acc @ [x]) xs)"
  by pat_completeness auto
termination
  by (relation "measure (\<lambda>(sep, acc, s). length s)") (auto simp: neq_Nil_conv)

definition Split :: "string \<Rightarrow> string \<Rightarrow> string list" where
  "Split s sep = (if sep = [] then map (\<lambda>c. [c]) s else Split_from sep [] s)"

definition TrimPrefix :: "string \<Rightarrow> string \<Rightarrow> string" where
  "TrimPrefix s pfx = (if prefix pfx s then drop (length pfx) s else s)"

text \<open>
  A piece is separable when the separator does not occur in the piece followed by all
  but the last byte of the separator: then, in the piece followed by the separator, the
  first occurrence of the separator is the one at the end.  For a separator of one
  byte, such as the comma, this says that the byte is not in the piece.
\<close>

definition separable :: "string \<Rightarrow> string \<Rightarrow> bool" where
  "separable sep c = (\<not> sublist sep (c @ butlast sep))"

text \<open>
  The entries of a mapper are its columns paired with their field positions.  The
  invariant of the specification: as many columns as field positions, no column twice,
  and every position that of an exported field of the target struct type.
\<close>

definition entries :: "mapper \<Rightarrow> (string \<times> nat) list" where
  "entries m = zip (cols m) (fields' m)"

definition invariant :: "mapper \<Rightarrow> bool" where
  "invariant m =
     (length (cols m) = length (fields' m) \<and> distinct (cols m) \<and>
      (case target m of
         Some (StructT n fs) \<Rightarrow> \<forall>j \<in> set (fields' m). j < length fs \<and> IsExported (fs ! j)
       | _ \<Rightarrow> False))"

text \<open>
  The mappers the package produces: what \<^verbatim>\<open>MapperWithKey\<close> returns, what \<^verbatim>\<open>Subset\<close>
  returns on a produced mapper, and a produced mapper after its configuration
  (\<^verbatim>\<open>Comma\<close>, \<^verbatim>\<open>Mark\<close>, \<^verbatim>\<open>FieldMapper\<close>) has been set.
\<close>

inductive produced :: "mapper \<Rightarrow> bool" where
  built: "MapperWithKey tgt key columns = Inr m \<Longrightarrow> produced m"
| subset: "produced (h ! p) \<Longrightarrow> p < length h \<Longrightarrow> Subset h p columns = Inr (h', q)
           \<Longrightarrow> produced (h' ! q)"
| options: "produced m \<Longrightarrow> produced (m\<lparr>Comma := c, Mark := k, FieldMapper := fm\<rparr>)"

section \<open>The struct types of the tests\<close>

text \<open>
  \<open>zero_struct n fs\<close> is the value \<^verbatim>\<open>T{}\<close> of a struct type \<^verbatim>\<open>T\<close> with the name \<open>n\<close> and
  the fields \<open>fs\<close>, each holding an empty scalar.  The struct types below are those of
  \<^verbatim>\<open>mapper_test.go\<close>: \<open>M_dup\<close> of \<^verbatim>\<open>TestMapperDuplicate\<close>, \<open>M_ab\<close> of
  \<^verbatim>\<open>TestMapperUnknownField\<close>, \<open>M_abcd\<close> of the \<^verbatim>\<open>Subset\<close> test, and \<open>M_tagged\<close>, which
  has a tagged, an unexported, an untagged and an ignored field.
\<close>

definition zero_struct :: "string \<Rightarrow> sfield list \<Rightarrow> gval" where
  "zero_struct n fs = StructV n (map (\<lambda>f. (f, ScalarV (Type f) [])) fs)"

definition string_T :: rtype where
  "string_T = OtherT String ''string''"

definition int32_T :: rtype where
  "int32_T = OtherT Int32 ''int32''"



definition M_ab :: "sfield list" where
  "M_ab = [StructField ''A'' [] string_T [], StructField ''B'' [] string_T []]"

definition M_abcd :: "sfield list" where
  "M_abcd =
     [StructField ''A'' [] string_T [], StructField ''B'' [] string_T [],
      StructField ''C'' [] string_T [], StructField ''D'' [] string_T []]"

text \<open>The mapper of \<^verbatim>\<open>New(M{}, "*")\<close> in the \<^verbatim>\<open>Subset\<close> test.\<close>

definition abcd_mapper :: mapper where
  "abcd_mapper =
     \<lparr>fields' = [0, 1, 2, 3], cols = [''a'', ''b'', ''c'', ''d''],
      target = Some (StructT ''mapper.M'' M_abcd), Comma = 44, Mark = 63,
      FieldMapper = Some ToLower\<rparr>"

text \<open>
  A struct with a tag value that holds a comma and the mapper \<^verbatim>\<open>Mapper(M{}, "*")\<close> builds
  for it; the mapper that \<^verbatim>\<open>Mapper(M{}, "a")\<close> builds for \<open>M_ab\<close>; and another struct type
  \<^verbatim>\<open>N\<close> with one field.
\<close>

definition M_comma :: "sfield list" where
  "M_comma = [StructField ''A'' [] string_T [(''mapper'', ''a,b'')]]"

definition comma_mapper :: mapper where
  "comma_mapper =
     \<lparr>fields' = [0], cols = [''a,b''], target = Some (StructT ''mapper.M'' M_comma),
      Comma = 44, Mark = 63, FieldMapper = Some ToLower\<rparr>"

definition a_mapper :: mapper where
  "a_mapper =
     \<lparr>fields' = [0], cols = [''a''], target = Some (StructT ''mapper.M'' M_ab),
      Comma = 44, Mark = 63, FieldMapper = Some ToLower\<rparr>"

definition N_x :: "sfield list" where
  "N_x = [StructField ''X'' [] int32_T []]"

section \<open>The loop of MapperWithKey\<close>

lemma index_from_absent: "index_from i xs x = -1 \<Longrightarrow> 0 \<le> i \<Longrightarrow> x \<notin> set xs"
  by (induction xs arbitrary: i) (auto split: if_splits)

lemma index_from_present:
  "x \<in> set xs \<Longrightarrow> 0 \<le> i \<Longrightarrow>
   i \<le> index_from i xs x \<and> index_from i xs x < i + int (length xs)
   \<and> xs ! nat (index_from i xs x - i) = x"
proof (induction xs arbitrary: i)
  case Nil
  then show ?case by simp
next
  case (Cons y ys)
  show ?case
  proof (cases "y = x")
    case True
    then show ?thesis by simp
  next
    case False
    with Cons.prems have "x \<in> set ys" by simp
    from Cons.IH [OF this, of "i + 1"] Cons.prems(2) False show ?thesis
      by (auto simp: nat_diff_distrib nat_add_distrib)
  qed
qed

lemma index_absent_iff: "index xs x = -1 \<longleftrightarrow> x \<notin> set xs"
proof
  assume "index xs x = -1"
  then show "x \<notin> set xs" using index_from_absent [of 0 xs x] by (simp add: index_def)
next
  assume "x \<notin> set xs"
  then have "index_from i xs x = -1" for i by (induction xs arbitrary: i) auto
  then show "index xs x = -1" by (simp add: index_def)
qed

lemma index_present:
  "x \<in> set xs \<Longrightarrow> nat (index xs x) < length xs \<and> xs ! nat (index xs x) = x"
  using index_from_present [of x xs 0] by (auto simp: index_def)

lemma joker_iff: "joker columns \<longleftrightarrow> ''*'' \<in> set columns"
  by (induction columns) auto

lemma mset_swap_remove:
  "i < length xs \<Longrightarrow> mset (swap_remove xs i) = mset xs - {#xs ! i#}"
proof (cases xs rule: rev_cases)
  case Nil
  assume "i < length xs"
  with Nil show ?thesis by simp
next
  case (snoc ys l)
  assume i: "i < length xs"
  show ?thesis
  proof (cases "i < length ys")
    case True
    then show ?thesis
      using snoc by (simp add: swap_remove_def list_update_append nth_append mset_update)
  next
    case False
    with i snoc have "i = length ys" by simp
    then show ?thesis using snoc by (simp add: swap_remove_def)
  qed
qed

text \<open>One round of the loop, in the words of the specification.\<close>

lemma MapperLoop_Cons:
  assumes "FieldMapper m = Some ToLower"
  shows "MapperLoop key jk (f # rest) i columns m =
     (if \<not> candidate key f then MapperLoop key jk rest (Suc i) columns m
      else if \<not> jk \<and> resolved key f \<notin> set columns
        then MapperLoop key jk rest (Suc i) columns m
      else if resolved key f \<in> set (cols m) then Inl (duplicate_msg (resolved key f))
      else MapperLoop key jk rest (Suc i)
             (if jk then columns else swap_remove columns (nat (index columns (resolved key f))))
             (m\<lparr>cols := cols m @ [resolved key f], fields' := fields' m @ [i]\<rparr>))"
  using assms
  by (auto simp: candidate_def ignored_def resolved_def duplicate_msg_def HasSuffix_def Let_def
      index_absent_iff)

declare MapperLoop.simps(2) [simp del]

lemma swap_remove_index:
  assumes "x \<in> set w"
  shows "mset (swap_remove w (nat (index w x))) = mset w - {#x#}"
  using index_present [OF assms] by (simp add: mset_swap_remove)




lemma selects_first:
  assumes "k < n" "candidate key (fs ! k)" "resolved key (fs ! k) = c" "c \<in> set columns"
  shows "\<exists>k0 < n. selects key columns fs k0 \<and> resolved key (fs ! k0) = c"
proof -
  define Q where "Q j = (candidate key (fs ! j) \<and> resolved key (fs ! j) = c)" for j
  have "Q k" using assms by (simp add: Q_def)
  define k0 where "k0 = (LEAST j. Q j)"
  have q: "Q k0" unfolding k0_def using \<open>Q k\<close> by (rule LeastI)
  have le: "k0 \<le> k" unfolding k0_def using \<open>Q k\<close> by (rule Least_le)
  have "\<not> Q j" if "j < k0" for j using that not_less_Least unfolding k0_def by blast
  then have "selects key columns fs k0"
    using q assms(4) by (auto simp: selects_def Q_def)
  moreover have "k0 < n" using le assms(1) by simp
  moreover have "resolved key (fs ! k0) = c" using q by (simp add: Q_def)
  ultimately show ?thesis by blast
qed

lemma MapperLoop_inv:
  assumes "MapperLoop key (joker columns) fs' (length pre) w m = Inr (w', m')"
      and "fs = pre @ fs'"
      and "loop_inv key columns fs (length pre) w m"
  shows "loop_inv key columns fs (length fs) w' m'
       \<and> m' = m\<lparr>cols := cols m', fields' := fields' m'\<rparr>"
  using assms
proof (induction fs' arbitrary: pre w m)
  case Nil
  then have eq: "w' = w" "m' = m" "fs = pre" by simp_all
  show ?case unfolding eq using Nil.prems(3) unfolding eq by simp
next
  case (Cons g rest)
  let ?jk = "joker columns"
  let ?c = "resolved key g"
  let ?i = "length pre"
  let ?sel = "selects key columns fs"
  note inv = Cons.prems(3) [unfolded loop_inv_def]
  have fm: "FieldMapper m = Some ToLower" using inv by simp
  have i2: "cols m = map (\<lambda>j. resolved key (fs ! j)) (fields' m)" using inv by blast
  have i3: "distinct (cols m)" using inv by blast
  have i4: "if joker columns then w = columns else mset w = mset columns - mset (cols m)"
    using inv by blast
  note step = MapperLoop_Cons [OF fm]
  have g: "fs ! ?i = g" using Cons.prems(2) by simp
  have fs: "fs = (pre @ [g]) @ rest" using Cons.prems(2) by simp
  have upt: "filter ?sel [0..<Suc ?i] = fields' m @ (if ?sel ?i then [?i] else [])"
    using inv by simp
  have earlier: "\<exists>k < ?i. candidate key (fs ! k) \<and> resolved key (fs ! k) = c"
    if "c \<in> set (cols m)" for c
  proof -
    from that inv obtain j where "j \<in> set (fields' m)" "resolved key (fs ! j) = c"
      by auto
    moreover from this inv have "j < ?i" "?sel j" by auto
    ultimately show ?thesis by (auto simp: selects_def)
  qed
  have sub: "c \<in> set columns" if "c \<in> set w" for c
  proof (cases ?jk)
    case True
    with inv that show ?thesis by simp
  next
    case False
    with inv have "mset w \<subseteq># mset columns" by simp
    with that show ?thesis by (metis mset_subset_eqD set_mset_mset)
  qed
  consider (skip1) "\<not> candidate key g"
    | (skip2) "candidate key g" "\<not> ?jk" "?c \<notin> set w"
    | (dup) "candidate key g" "?jk \<or> ?c \<in> set w" "?c \<in> set (cols m)"
    | (app) "candidate key g" "?jk \<or> ?c \<in> set w" "?c \<notin> set (cols m)"
    by blast
  then show ?case
  proof cases
    case skip1
    then have run: "MapperLoop key ?jk rest (length (pre @ [g])) w m = Inr (w', m')"
      using Cons.prems(1) by (simp add: step)
    have "\<not> ?sel ?i" using skip1 g by (simp add: selects_def)
    then have "fields' m = filter ?sel [0..<length (pre @ [g])]" using upt by simp
    then have "loop_inv key columns fs (length (pre @ [g])) w m"
      unfolding loop_inv_def using i2 i3 i4 fm by blast
    from Cons.IH [OF run fs this] show ?thesis .
  next
    case skip2
    then have run: "MapperLoop key ?jk rest (length (pre @ [g])) w m = Inr (w', m')"
      using Cons.prems(1) by (simp add: step)
    have "\<not> ?sel ?i"
    proof
      assume s: "?sel ?i"
      then have c0: "?c \<in> set columns" using skip2 g by (simp add: selects_def)
      have "?c \<in> set (cols m)"
      proof (rule ccontr)
        assume nc: "?c \<notin> set (cols m)"
        then have "count (mset (cols m)) ?c = 0" by (simp add: count_eq_zero_iff)
        moreover have "0 < count (mset columns) ?c" using c0 by (simp add: count_greater_zero_iff)
        ultimately have "?c \<in># mset columns - mset (cols m)"
          unfolding in_diff_count by linarith
        moreover have "mset w = mset columns - mset (cols m)"
          using inv skip2(2) by simp
        ultimately have "?c \<in># mset w" by metis
        then show False using skip2(3) by simp
      qed
      from earlier [OF this] s g skip2(2) show False by (auto simp: selects_def)
    qed
    then have "fields' m = filter ?sel [0..<length (pre @ [g])]" using upt by simp
    then have "loop_inv key columns fs (length (pre @ [g])) w m"
      unfolding loop_inv_def using i2 i3 i4 fm by blast
    from Cons.IH [OF run fs this] show ?thesis .
  next
    case dup
    then show ?thesis using Cons.prems(1) by (auto simp: step)
  next
    case app
    let ?w1 = "if ?jk then w else swap_remove w (nat (index w ?c))"
    let ?m1 = "m\<lparr>cols := cols m @ [?c], fields' := fields' m @ [?i]\<rparr>"
    have run: "MapperLoop key ?jk rest (length (pre @ [g])) ?w1 ?m1 = Inr (w', m')"
      using Cons.prems(1) app by (auto simp: step)
    have "?sel ?i"
    proof (cases ?jk)
      case True
      then show ?thesis using app(1) g by (simp add: selects_def)
    next
      case False
      with app(2) have cw: "?c \<in> set w" by simp
      have "\<not> (candidate key (fs ! k) \<and> resolved key (fs ! k) = ?c)" if "k < ?i" for k
      proof
        assume "candidate key (fs ! k) \<and> resolved key (fs ! k) = ?c"
        with selects_first [OF that, of key fs ?c columns] sub [OF cw]
        obtain k0 where "k0 < ?i" "selects key columns fs k0" "resolved key (fs ! k0) = ?c"
          by auto
        with inv have "k0 \<in> set (fields' m)" by simp
        with \<open>resolved key (fs ! k0) = ?c\<close> inv have "?c \<in> set (cols m)" by force
        with app(3) show False by simp
      qed
      then show ?thesis using app(1) g sub [OF cw] by (auto simp: selects_def)
    qed
    then have f: "fields' ?m1 = filter ?sel [0..<length (pre @ [g])]"
      using upt by simp
    have c: "cols ?m1 = map (\<lambda>j. resolved key (fs ! j)) (fields' ?m1)"
      using i2 g by simp
    have d: "distinct (cols ?m1)" using i3 app(3) by simp
    have w: "if ?jk then ?w1 = columns else mset ?w1 = mset columns - mset (cols ?m1)"
    proof (cases ?jk)
      case True
      then show ?thesis using i4 by simp
    next
      case False
      with app(2) have cw: "?c \<in> set w" by simp
      from swap_remove_index [OF cw] show ?thesis using False i4 by simp
    qed
    have fm1: "FieldMapper ?m1 = Some ToLower" using fm by simp
    have "loop_inv key columns fs (length (pre @ [g])) ?w1 ?m1"
      unfolding loop_inv_def using f c d w fm1 by blast
    note ih = Cons.IH [OF run fs this]
    then have "m' = ?m1\<lparr>cols := cols m', fields' := fields' m'\<rparr>" by blast
    then have "m' = m\<lparr>cols := cols m', fields' := fields' m'\<rparr>" by simp
    with ih show ?thesis by blast
  qed
qed

lemma MapperLoop_Inl:
  assumes "MapperLoop key jk fs' (length pre) w m = Inl e"
      and "fs = pre @ fs'"
      and "FieldMapper m = Some ToLower"
      and "\<forall>c \<in> set (cols m). \<exists>a < length pre. candidate key (fs ! a) \<and> resolved key (fs ! a) = c"
  shows "\<exists>a b. a < b \<and> b < length fs \<and> candidate key (fs ! a) \<and> candidate key (fs ! b)
           \<and> resolved key (fs ! a) = resolved key (fs ! b)
           \<and> e = duplicate_msg (resolved key (fs ! b))"
  using assms
proof (induction fs' arbitrary: pre w m)
  case Nil
  then show ?case by simp
next
  case (Cons g rest)
  let ?c = "resolved key g"
  let ?i = "length pre"
  note step = MapperLoop_Cons [OF Cons.prems(3)]
  have g: "fs ! ?i = g" using Cons.prems(2) by simp
  have fs: "fs = (pre @ [g]) @ rest" using Cons.prems(2) by simp
  have old: "\<forall>c \<in> set (cols m). \<exists>a < length (pre @ [g]). candidate key (fs ! a) \<and> resolved key (fs ! a) = c"
    using Cons.prems(4) by (auto intro: less_SucI)
  let ?w1 = "if jk then w else swap_remove w (nat (index w ?c))"
  consider (skip1) "\<not> candidate key g"
    | (skip2) "candidate key g" "\<not> jk" "?c \<notin> set w"
    | (dup) "candidate key g" "jk \<or> ?c \<in> set w" "?c \<in> set (cols m)"
    | (app) "candidate key g" "jk \<or> ?c \<in> set w" "?c \<notin> set (cols m)"
    by blast
  then show ?case
  proof cases
    case skip1
    then have "MapperLoop key jk rest (length (pre @ [g])) w m = Inl e"
      using Cons.prems(1) by (simp add: step)
    from Cons.IH [OF this fs Cons.prems(3) old] show ?thesis .
  next
    case skip2
    then have "MapperLoop key jk rest (length (pre @ [g])) w m = Inl e"
      using Cons.prems(1) by (simp add: step)
    from Cons.IH [OF this fs Cons.prems(3) old] show ?thesis .
  next
    case dup
    then have e: "e = duplicate_msg ?c" using Cons.prems(1) by (auto simp: step)
    from Cons.prems(4) dup(3) obtain a where "a < ?i" "candidate key (fs ! a)" "resolved key (fs ! a) = ?c"
      by blast
    moreover have "?i < length fs" using Cons.prems(2) by simp
    ultimately show ?thesis using dup(1) e g by blast
  next
    case app
    let ?m1 = "m\<lparr>cols := cols m @ [?c], fields' := fields' m @ [?i]\<rparr>"
    have fm1: "FieldMapper ?m1 = Some ToLower" using Cons.prems(3) by simp
    have new: "\<forall>c \<in> set (cols ?m1). \<exists>a < length (pre @ [g]). candidate key (fs ! a) \<and> resolved key (fs ! a) = c"
    proof
      fix c assume "c \<in> set (cols ?m1)"
      then consider "c \<in> set (cols m)" | "c = ?c" by auto
      then show "\<exists>a < length (pre @ [g]). candidate key (fs ! a) \<and> resolved key (fs ! a) = c"
      proof cases
        case 1
        with old show ?thesis by blast
      next
        case 2
        then show ?thesis using app(1) g by (intro exI [of _ ?i]) simp
      qed
    qed
    have "MapperLoop key jk rest (length (pre @ [g])) ?w1 ?m1 = Inl e"
      using Cons.prems(1) app by (auto simp: step)
    from Cons.IH [OF this fs fm1 new] show ?thesis .
  qed
qed




lemma loop_invD:
  assumes "loop_inv key columns fs i w m"
  shows "fields' m = filter (selects key columns fs) [0..<i]"
    and "cols m = map (\<lambda>j. resolved key (fs ! j)) (fields' m)"
    and "distinct (cols m)"
    and "\<not> joker columns \<Longrightarrow> mset w = mset columns - mset (cols m)"
    and "FieldMapper m = Some ToLower"
proof -
  note a = assms [unfolded loop_inv_def]
  show "fields' m = filter (selects key columns fs) [0..<i]" using a by blast
  show "cols m = map (\<lambda>j. resolved key (fs ! j)) (fields' m)" using a by blast
  show "distinct (cols m)" using a by blast
  show "FieldMapper m = Some ToLower" using a by blast
  have "if joker columns then w = columns else mset w = mset columns - mset (cols m)"
    using a by blast
  then show "mset w = mset columns - mset (cols m)" if "\<not> joker columns"
    using that by (simp only: if_False)
qed

section \<open>MapperWithKey on a struct\<close>

lemma MapperWithKey_struct:
  assumes "TypeOf tgt = Some (StructT n fs)" "key \<noteq> []" "columns \<noteq> []"
  shows "MapperWithKey tgt key columns =
     (case MapperLoop key (joker columns) fs 0 columns (init_mapper (StructT n fs)) of
        Inl e \<Rightarrow> Inl e
      | Inr (w, m) \<Rightarrow> if \<not> joker columns \<and> w \<noteq> [] then Inl (missing_msg w) else Inr m)"
  using assms
  by (simp add: MapperWithKey_def NumField_def init_mapper_def missing_msg_def
      split: sum.splits prod.splits)

lemma MapperWithKey_Inr_struct:
  assumes "MapperWithKey tgt key columns = Inr m"
  shows "\<exists>n fs. TypeOf tgt = Some (StructT n fs)"
proof (cases "TypeOf tgt")
  case None
  with assms show ?thesis by (simp add: MapperWithKey_def split: if_splits)
next
  case (Some t)
  with assms show ?thesis
    by (cases t) (auto simp: MapperWithKey_def NumField_def Let_def split: if_splits)
qed

lemma MapperWithKey_InrD:
  assumes "TypeOf tgt = Some (StructT n fs)" "MapperWithKey tgt key columns = Inr m"
  shows "key \<noteq> [] \<and> columns \<noteq> [] \<and>
    (\<exists>w. MapperLoop key (joker columns) fs 0 columns (init_mapper (StructT n fs)) = Inr (w, m)
         \<and> (joker columns \<or> w = []))"
proof -
  have k: "key \<noteq> []" and c: "columns \<noteq> []"
    using assms by (auto simp: MapperWithKey_def split: if_splits)
  from assms(2) show ?thesis
    unfolding MapperWithKey_struct [OF assms(1) k c] using k c
    by (auto split: sum.splits prod.splits if_splits)
qed

lemma loop_inv_init: "loop_inv key columns fs 0 columns (init_mapper t)"
  by (simp add: loop_inv_def init_mapper_def)

lemma MapperLoop_result:
  assumes "MapperLoop key (joker columns) fs 0 columns (init_mapper t) = Inr (w, m)"
  shows "loop_inv key columns fs (length fs) w m
       \<and> m = (init_mapper t)\<lparr>cols := cols m, fields' := fields' m\<rparr>"
  using MapperLoop_inv [of key columns fs "[]" columns "init_mapper t" w m fs] assms loop_inv_init
  by simp






lemma not_isl_Inr: "\<not> isl r \<Longrightarrow> \<exists>x. r = Inr x"
  by (cases r) auto









section \<open>Subset\<close>

lemma SubsetLoop_entries:
  assumes "i + length cs \<le> length mf"
  shows "SubsetLoop columns mf i cs nm =
     Inr (nm\<lparr>cols := cols nm @ map fst (filter (\<lambda>(c, f). c \<in> set columns) (zip cs (drop i mf))),
             fields' := fields' nm @ map snd (filter (\<lambda>(c, f). c \<in> set columns) (zip cs (drop i mf)))\<rparr>)"
  using assms
proof (induction cs arbitrary: i nm)
  case Nil
  then show ?case by simp
next
  case (Cons c rest)
  then have i: "i < length mf" and r: "Suc i + length rest \<le> length mf" by simp_all
  have d: "drop i mf = mf ! i # drop (Suc i) mf" using i by (simp add: Cons_nth_drop_Suc)
  show ?case using Cons.IH [OF r] i by (simp add: d index_absent_iff)
qed

lemma Subset_plain:
  assumes "p < length h" "length (fields' (h ! p)) = length (cols (h ! p))" "rs \<noteq> []" "\<not> joker rs"
  shows "Subset h p rs =
     Inr (h @ [(h ! p)\<lparr>cols := map fst (filter (\<lambda>(c, f). c \<in> set rs) (entries (h ! p))),
                       fields' := map snd (filter (\<lambda>(c, f). c \<in> set rs) (entries (h ! p)))\<rparr>],
          length h)"
  using assms by (simp add: Subset_def Let_def SubsetLoop_entries entries_def)

text \<open>
  C4.  \<open>p\<close> points to a mapper of the heap with as many field positions as columns.
  \<^verbatim>\<open>Subset\<close> with no names returns a pointer to a new object (the position \<open>length h\<close>,
  which no pointer into \<open>h\<close> is; the objects of \<open>h\<close> stay as they are) with no columns,
  no fields and the configuration of the receiver.  With a request that has the
  wildcard it returns \<open>p\<close> itself, the receiver (the object it has allocated before is
  left behind in the heap).  Otherwise it returns a pointer to a new object whose
  entries are the entries of the receiver whose column name is requested, in the
  receiver's order, with the receiver's configuration.
\<close>

theorem C4_Subset:
  assumes "p < length h" and "length (fields' (h ! p)) = length (cols (h ! p))"
  shows "(rs = [] \<longrightarrow> Subset h p rs = Inr (h @ [(h ! p)\<lparr>cols := [], fields' := []\<rparr>], length h))
       \<and> (joker rs \<longrightarrow> Subset h p rs = Inr (h @ [(h ! p)\<lparr>cols := [], fields' := []\<rparr>], p))
       \<and> (rs \<noteq> [] \<and> \<not> joker rs \<longrightarrow>
            (\<exists>nm. Subset h p rs = Inr (h @ [nm], length h)
                 \<and> entries nm = filter (\<lambda>(c, f). c \<in> set rs) (entries (h ! p))
                 \<and> length (cols nm) = length (fields' nm)
                 \<and> nm = (h ! p)\<lparr>cols := cols nm, fields' := fields' nm\<rparr>))"
proof (intro conjI impI)
  assume "rs = []"
  then show "Subset h p rs = Inr (h @ [(h ! p)\<lparr>cols := [], fields' := []\<rparr>], length h)"
    using assms(1) by (simp add: Subset_def Let_def)
next
  assume "joker rs"
  then have "rs \<noteq> []" by auto
  with \<open>joker rs\<close> assms(1)
  show "Subset h p rs = Inr (h @ [(h ! p)\<lparr>cols := [], fields' := []\<rparr>], p)"
    by (simp add: Subset_def Let_def)
next
  assume a: "rs \<noteq> [] \<and> \<not> joker rs"
  let ?sel = "filter (\<lambda>(c, f). c \<in> set rs) (entries (h ! p))"
  let ?nm = "(h ! p)\<lparr>cols := map fst ?sel, fields' := map snd ?sel\<rparr>"
  have "Subset h p rs = Inr (h @ [?nm], length h)"
    using Subset_plain [OF assms] a by simp
  moreover have "entries ?nm = ?sel" by (simp add: entries_def zip_map_fst_snd)
  moreover have "length (cols ?nm) = length (fields' ?nm)" by simp
  moreover have "?nm = (h ! p)\<lparr>cols := cols ?nm, fields' := fields' ?nm\<rparr>" by simp
  ultimately show "\<exists>nm. Subset h p rs = Inr (h @ [nm], length h)
                 \<and> entries nm = filter (\<lambda>(c, f). c \<in> set rs) (entries (h ! p))
                 \<and> length (cols nm) = length (fields' nm)
                 \<and> nm = (h ! p)\<lparr>cols := cols nm, fields' := fields' nm\<rparr>"
    by blast
qed

theorem C4_Subset_witness:
  "(\<exists>nm. Subset [abcd_mapper] 0 [''c'', ''a''] = Inr ([abcd_mapper, nm], 1)
        \<and> cols nm = [''a'', ''c''] \<and> fields' nm = [0, 2])
   \<and> Subset [abcd_mapper] 0 [] = Inr ([abcd_mapper, abcd_mapper\<lparr>cols := [], fields' := []\<rparr>], 1)
   \<and> Subset [abcd_mapper] 0 [''*'']
       = Inr ([abcd_mapper, abcd_mapper\<lparr>cols := [], fields' := []\<rparr>], 0)"
proof -
  have p: "0 < length [abcd_mapper]" by simp
  have l: "length (fields' ([abcd_mapper] ! 0)) = length (cols ([abcd_mapper] ! 0))"
    by (simp add: abcd_mapper_def)
  note c4 = C4_Subset [OF p l]
  have 1: "Subset [abcd_mapper] 0 [] = Inr ([abcd_mapper, abcd_mapper\<lparr>cols := [], fields' := []\<rparr>], 1)"
    using c4 [of "[]"] by simp
  have 2: "Subset [abcd_mapper] 0 [''*'']
       = Inr ([abcd_mapper, abcd_mapper\<lparr>cols := [], fields' := []\<rparr>], 0)"
    using c4 [of "[''*'']"] by simp
  from c4 [of "[''c'', ''a'']"] obtain nm where
    s: "Subset [abcd_mapper] 0 [''c'', ''a''] = Inr ([abcd_mapper] @ [nm], length [abcd_mapper])"
    and e: "entries nm = filter (\<lambda>(c, f). c \<in> set [''c'', ''a'']) (entries ([abcd_mapper] ! 0))"
    and n: "length (cols nm) = length (fields' nm)"
    by auto
  have "filter (\<lambda>(c, f). c \<in> set [''c'', ''a'']) (entries ([abcd_mapper] ! 0)) = [(''a'', 0), (''c'', 2)]"
    by (simp add: entries_def abcd_mapper_def)
  with e have z: "zip (cols nm) (fields' nm) = [(''a'', 0), (''c'', 2)]" by (simp add: entries_def)
  have "cols nm = map fst (zip (cols nm) (fields' nm))" using n by simp
  then have "cols nm = [''a'', ''c'']" unfolding z by simp
  moreover have "fields' nm = map snd (zip (cols nm) (fields' nm))" using n by simp
  then have "fields' nm = [0, 2]" unfolding z by simp
  ultimately show ?thesis using s 1 2 by auto
qed

section \<open>The invariant\<close>

lemma invariant_built:
  assumes "MapperWithKey tgt key columns = Inr m"
  shows "invariant m"
proof -
  from MapperWithKey_Inr_struct [OF assms] obtain n fs where t: "TypeOf tgt = Some (StructT n fs)"
    by blast
  from MapperWithKey_InrD [OF t assms] obtain w where
    "MapperLoop key (joker columns) fs 0 columns (init_mapper (StructT n fs)) = Inr (w, m)"
    by blast
  from MapperLoop_result [OF this] have inv: "loop_inv key columns fs (length fs) w m"
    and m: "m = (init_mapper (StructT n fs))\<lparr>cols := cols m, fields' := fields' m\<rparr>"
    by blast+
  note f = loop_invD(1) [OF inv] and c = loop_invD(2) [OF inv] and d = loop_invD(3) [OF inv]
  have tm: "target m = Some (StructT n fs)"
    by (subst m) (simp add: init_mapper_def)
  have "length (cols m) = length (fields' m)" by (subst c) simp
  moreover have "\<forall>j \<in> set (fields' m). j < length fs \<and> IsExported (fs ! j)"
    unfolding f by (auto simp: selects_def candidate_def)
  ultimately show ?thesis using d tm by (simp add: invariant_def)
qed

lemma Subset_cases:
  assumes "p < length h" "length (fields' (h ! p)) = length (cols (h ! p))"
      and "Subset h p rs = Inr (h', q)"
  obtains (none) "h' ! q = (h ! p)\<lparr>cols := [], fields' := []\<rparr>"
    | (same) "h' ! q = h ! p"
    | (some) "h' ! q = (h ! p)\<lparr>cols := map fst (filter (\<lambda>(c, f). c \<in> set rs) (entries (h ! p))),
                                fields' := map snd (filter (\<lambda>(c, f). c \<in> set rs) (entries (h ! p)))\<rparr>"
proof (cases "rs = []")
  case True
  with assms(1,3) have "h' ! q = (h ! p)\<lparr>cols := [], fields' := []\<rparr>"
    by (auto simp: Subset_def Let_def)
  then show ?thesis by (rule none)
next
  case False
  show ?thesis
  proof (cases "joker rs")
    case True
    with False assms(1,3) have "h' ! q = h ! p"
      by (auto simp: Subset_def Let_def nth_append)
    then show ?thesis by (rule same)
  next
    case nj: False
    from Subset_plain [OF assms(1,2) False nj] assms(3) show ?thesis
      by (intro some) auto
  qed
qed

lemma invariant_Subset:
  assumes "invariant (h ! p)" "p < length h" "Subset h p rs = Inr (h', q)"
  shows "invariant (h' ! q)"
proof -
  let ?m = "h ! p"
  from assms(1) have l: "length (fields' ?m) = length (cols ?m)" and d: "distinct (cols ?m)"
    by (simp_all add: invariant_def)
  from assms(1) obtain n fs where t: "target ?m = Some (StructT n fs)"
    and f: "\<forall>j \<in> set (fields' ?m). j < length fs \<and> IsExported (fs ! j)"
    by (auto simp: invariant_def split: option.splits rtype.splits)
  from assms(2) l assms(3) show ?thesis
  proof (cases rule: Subset_cases)
    case none
    then show ?thesis using t by (simp add: invariant_def)
  next
    case same
    then show ?thesis using assms(1) by simp
  next
    case some
    let ?sel = "filter (\<lambda>(c, f). c \<in> set rs) (entries ?m)"
    have "distinct (map fst (entries ?m))" using d l by (simp add: entries_def)
    then have 1: "distinct (map fst ?sel)" by (rule distinct_map_filter)
    have "set (map snd ?sel) \<subseteq> set (fields' ?m)"
      by (auto simp: entries_def dest: set_zip_rightD)
    with f have 2: "\<forall>j \<in> set (map snd ?sel). j < length fs \<and> IsExported (fs ! j)" by blast
    show ?thesis unfolding some using 1 2 t by (simp add: invariant_def)
  qed
qed

text \<open>Setting options with \<^verbatim>\<open>SetOptions\<close> keeps a mapper among the produced ones.\<close>

lemma produced_option:
  assumes "produced m" "opt \<in> range WithComma \<union> range WithMark \<union> range WithFieldMapper"
  shows "produced (opt m)"
proof -
  from assms(2) obtain c k fm where
    "opt m = m\<lparr>Comma := c, Mark := k, FieldMapper := fm\<rparr>"
  proof (elim UnE rangeE)
    fix c assume "opt = WithComma c"
    then have "opt m = m\<lparr>Comma := c, Mark := Mark m, FieldMapper := FieldMapper m\<rparr>"
      by (simp add: WithComma_def)
    then show ?thesis by (rule that)
  next
    fix k assume "opt = WithMark k"
    then have "opt m = m\<lparr>Comma := Comma m, Mark := k, FieldMapper := FieldMapper m\<rparr>"
      by (simp add: WithMark_def)
    then show ?thesis by (rule that)
  next
    fix f assume "opt = WithFieldMapper f"
    then have "opt m = m\<lparr>Comma := Comma m, Mark := Mark m,
        FieldMapper := Some (case f of None \<Rightarrow> Direct | Some g \<Rightarrow> g)\<rparr>"
      by (simp add: WithFieldMapper_def)
    then show ?thesis by (rule that)
  qed
  with assms(1) show ?thesis by (simp add: options)
qed

lemma produced_SetOptions:
  assumes "produced m"
      and "\<forall>opt \<in> set opts. opt \<in> range WithComma \<union> range WithMark \<union> range WithFieldMapper"
  shows "produced (SetOptions m opts)"
  using assms
proof (induction opts arbitrary: m)
  case Nil
  then show ?case by simp
next
  case (Cons opt opts)
  then have "produced (opt m)" using produced_option [of m opt] by simp
  with Cons show ?case by simp
qed

text \<open>
  C7.  Every mapper produced by a construction or by \<^verbatim>\<open>Subset\<close> satisfies the
  invariant: it has as many columns as field positions, no column name twice, and every
  field position is that of an exported field of its target struct type.
\<close>

theorem C7_invariant:
  assumes "produced m"
  shows "invariant m"
  using assms
proof (induction rule: produced.induct)
  case (built tgt key columns m)
  then show ?case by (rule invariant_built)
next
  case (subset h p columns h' q)
  then show ?case using invariant_Subset by blast
next
  case (options m c k fm)
  then show ?case by (auto simp: invariant_def split: option.splits rtype.splits)
qed

theorem C7_invariant_witness:
  "\<exists>m. produced m \<and> invariant m \<and> cols m = [''a'', ''c''] \<and> fields' m = [0, 2]"
proof -
  let ?t = "zero_struct ''mapper.M'' M_abcd"
  let ?rs = "[''c'', ''a'']"
  have "\<not> isl (MapperWithKey ?t ''mapper'' [''*''])" by code_simp
  then obtain m where r: "MapperWithKey ?t ''mapper'' [''*''] = Inr m"
    using not_isl_Inr by blast
  then have pm: "produced m" by (rule built)
  have "map_sum id cols (MapperWithKey ?t ''mapper'' [''*'']) = Inr [''a'', ''b'', ''c'', ''d'']"
    by code_simp
  with r have c: "cols m = [''a'', ''b'', ''c'', ''d'']" by simp
  have "map_sum id fields' (MapperWithKey ?t ''mapper'' [''*'']) = Inr [0, 1, 2, 3]"
    by code_simp
  with r have f: "fields' m = [0, 1, 2, 3]" by simp
  let ?sel = "filter (\<lambda>(c, f). c \<in> set ?rs) (entries ([m] ! 0))"
  let ?nm = "([m] ! 0)\<lparr>cols := map fst ?sel, fields' := map snd ?sel\<rparr>"
  have "Subset [m] 0 ?rs = Inr ([m] @ [?nm], length [m])"
    by (rule Subset_plain) (simp_all add: c f)
  with pm have "produced (([m] @ [?nm]) ! length [m])"
    using subset [of "[m]" 0 ?rs "[m] @ [?nm]" "length [m]"] by simp
  then have pn: "produced ?nm" by simp
  have "cols ?nm = [''a'', ''c'']" "fields' ?nm = [0, 2]" by (simp_all add: entries_def c f)
  with pn C7_invariant [OF pn] show ?thesis by blast
qed

section \<open>A pointer as the target\<close>

lemma MapperWithKey_pointer:
  assumes "key \<noteq> []" "columns \<noteq> []"
  shows "MapperWithKey (PtrV (StructT n fs) r) key columns
         = Inl (Str (''reflect: NumField of non-struct type *'' @ n))"
  using assms by (simp add: MapperWithKey_def NumField_def)

text \<open>
  The panic for a target that is no record is raised exactly when, with a key that is
  not empty, the type of the target, after one dereference when it is a pointer, is not
  a struct.
\<close>

lemma not_struct_panic_iff:
  "MapperWithKey tgt key columns
      = Inl (Str ''Mapper first argument MUST be a struct or a struct pointer'')
   \<longleftrightarrow> key \<noteq> [] \<and> (\<exists>t. TypeOf tgt = Some t
                      \<and> (case t of PointerT e \<Rightarrow> Kind e | _ \<Rightarrow> Kind t) \<noteq> Struct)"
proof (cases "key = []")
  case True
  then show ?thesis by (simp add: MapperWithKey_def)
next
  case k: False
  show ?thesis
  proof (cases "TypeOf tgt")
    case None
    with k show ?thesis by (simp add: MapperWithKey_def)
  next
    case (Some t)
    show ?thesis
    proof (cases "(case t of PointerT e \<Rightarrow> Kind e | _ \<Rightarrow> Kind t) = Struct")
      case False
      with k Some show ?thesis
        by (cases t) (auto simp: MapperWithKey_def Let_def)
    next
      case st: True
      show ?thesis
      proof (cases "columns = []")
        case True
        with k Some st show ?thesis by (cases t) (auto simp: MapperWithKey_def Let_def)
      next
        case c: False
        show ?thesis
        proof (cases t)
          case (StructT n fs)
          with Some have ty: "TypeOf tgt = Some (StructT n fs)" by simp
          let ?m0 = "init_mapper (StructT n fs)"
          have "MapperWithKey tgt key columns
                  \<noteq> Inl (Str ''Mapper first argument MUST be a struct or a struct pointer'')"
          proof (cases "MapperLoop key (joker columns) fs 0 columns ?m0")
            case (Inl e)
            have "\<exists>a b. a < b \<and> b < length fs \<and> candidate key (fs ! a) \<and> candidate key (fs ! b)
                    \<and> resolved key (fs ! a) = resolved key (fs ! b)
                    \<and> e = duplicate_msg (resolved key (fs ! b))"
              using MapperLoop_Inl [of key "joker columns" fs "[]" columns ?m0 e fs] Inl
              by (simp add: init_mapper_def)
            then obtain col where "e = duplicate_msg col" by blast
            then show ?thesis
              unfolding MapperWithKey_struct [OF ty k c] Inl by (simp add: duplicate_msg_def)
          next
            case (Inr r)
            then show ?thesis
              unfolding MapperWithKey_struct [OF ty k c]
              by (cases r) (simp add: missing_msg_def)
          qed
          with st StructT Some show ?thesis by simp
        next
          case (PointerT e)
          with k c Some st show ?thesis
            by (simp add: MapperWithKey_def NumField_def Let_def)
        next
          case (OtherT kd n)
          with k c Some st show ?thesis
            by (simp add: MapperWithKey_def NumField_def Let_def)
        qed
      qed
    qed
  qed
qed

text \<open>
  C5.  \<^verbatim>\<open>Mapper(&M{}, "*")\<close> for the struct \<^verbatim>\<open>M\<close> of \<^verbatim>\<open>TestMapperUnknownField\<close>: the kind
  test looks through the pointer, but the loop then asks the pointer type itself for its
  fields, and \<^verbatim>\<open>NumField\<close> panics.  The construction does not succeed.
\<close>

theorem C5_pointer_target:
  "MapperWithKey (PtrV (StructT ''mapper.M'' M_ab) (Some (VarRef 0))) ''mapper'' [''*'']
     = Inl (Str ''reflect: NumField of non-struct type *mapper.M'')"
  by (simp add: MapperWithKey_def NumField_def)

section \<open>ColumnsString, ColumnsStringPrefix and Marks\<close>

lemma EncodeRune_comma: "EncodeRune 44 = '',''"
  by code_simp

lemma EncodeRune_not_Nil: "EncodeRune r \<noteq> []"
  by (simp add: EncodeRune_def Let_def)

lemma separable_single: "separable [x] c \<longleftrightarrow> x \<notin> set c"
proof -
  have "sublist [x] c \<longleftrightarrow> x \<in> set c"
    by (auto simp: sublist_def in_set_conv_decomp)
  then show ?thesis by (simp add: separable_def)
qed

lemma separable_Cons: "separable sep (y # c) \<Longrightarrow> separable sep c"
  by (auto simp: separable_def sublist_Cons_right)

lemma separable_not_sublist: "separable sep c \<Longrightarrow> \<not> sublist sep c"
  unfolding separable_def using sublist_append by blast

lemma prefix_append_short:
  assumes "prefix xs (ys @ zs)" "length xs \<le> length ys"
  shows "prefix xs ys"
proof -
  from assms(1) obtain ts where "ys @ zs = xs @ ts" by (auto simp: prefix_def)
  then obtain us where "ys = xs @ us \<or> (ys @ us = xs \<and> zs = us @ ts)"
    by (auto simp: append_eq_append_conv2)
  then show ?thesis
  proof
    assume "ys = xs @ us"
    then show ?thesis by simp
  next
    assume a: "ys @ us = xs \<and> zs = us @ ts"
    then have "length ys + length us = length xs" by (metis length_append)
    with assms(2) have "length us = 0" by linarith
    then have "us = []" by simp
    with a show ?thesis by simp
  qed
qed

lemma separable_not_prefix:
  assumes "separable sep (y # c)" "sep \<noteq> []"
  shows "\<not> prefix sep (y # c @ sep @ rest)"
proof
  assume p: "prefix sep (y # c @ sep @ rest)"
  have e: "y # c @ sep @ rest = ((y # c) @ butlast sep) @ ([last sep] @ rest)"
    using assms(2) by simp
  have "length sep \<le> length ((y # c) @ butlast sep)" by simp
  with p have "prefix sep ((y # c) @ butlast sep)"
    unfolding e by (rule prefix_append_short)
  then have "sublist sep ((y # c) @ butlast sep)" by (rule prefix_imp_sublist)
  with assms(1) show False by (simp add: separable_def)
qed

lemma Split_from_piece:
  assumes "sep \<noteq> []" "separable sep c"
  shows "Split_from sep acc (c @ sep @ rest) = (acc @ c) # Split_from sep [] rest"
  using assms(2)
proof (induction c arbitrary: acc)
  case Nil
  from assms(1) obtain x xs where x: "sep = x # xs" by (cases sep) auto
  show ?case unfolding x by simp
next
  case (Cons y c)
  from separable_not_prefix [OF Cons.prems assms(1)]
  have "Split_from sep acc ((y # c) @ sep @ rest) = Split_from sep (acc @ [y]) (c @ sep @ rest)"
    by simp
  then show ?case using Cons.IH [OF separable_Cons [OF Cons.prems]] by simp
qed

lemma Split_from_last:
  assumes "\<not> sublist sep c"
  shows "Split_from sep acc c = [acc @ c]"
  using assms
proof (induction c arbitrary: acc)
  case Nil
  then show ?case by simp
next
  case (Cons y c)
  then have "\<not> prefix sep (y # c)" and "\<not> sublist sep c"
    by (auto simp: sublist_Cons_right)
  then show ?case using Cons.IH by simp
qed

lemma Split_from_pieces:
  assumes "sep \<noteq> []" "\<forall>c \<in> set (p # ps). separable sep c"
  shows "Split_from sep [] (p @ concat (map (\<lambda>c. sep @ c) ps)) = p # ps"
  using assms(2)
proof (induction ps arbitrary: p)
  case Nil
  then show ?case by (simp add: Split_from_last separable_not_sublist)
next
  case (Cons q qs)
  then have "separable sep p" and "\<forall>c \<in> set (q # qs). separable sep c" by simp_all
  then show ?case using Cons.IH [of q] Split_from_piece [OF assms(1), of p "[]"] by simp
qed

lemma WriteCols_concat:
  "WriteCols comma pfx b cs = b @ concat (map (\<lambda>c. EncodeRune comma @ pfx @ c) cs)"
  by (induction cs arbitrary: b) simp_all

lemma sum_list_nonneg_int: "(\<And>x. x \<in> set xs \<Longrightarrow> 0 \<le> f x) \<Longrightarrow> (0::int) \<le> sum_list (map f xs)"
  by (induction xs) auto

lemma ColumnsStringPrefix_Cons:
  assumes "cols m = c # rest"
  shows "ColumnsStringPrefix m pfx
         = Inr ((pfx @ c) @ concat (map (\<lambda>x. EncodeRune (Comma m) @ x) (map ((@) pfx) rest)))"
proof (cases rest)
  case Nil
  with assms show ?thesis by (simp add: ColumnsStringPrefix_def)
next
  case (Cons d ds)
  have "0 \<le> sum_list (map (\<lambda>c. int (length c) + int (length pfx)) (cols m))"
    by (rule sum_list_nonneg_int) simp
  then have "Grow (int (length (cols m)) - 1
              + sum_list (map (\<lambda>c. int (length c) + int (length pfx)) (cols m))) = Inr ()"
    using assms by (simp add: Grow_def)
  then show ?thesis using assms Cons
    by (simp add: ColumnsStringPrefix_def Let_def WriteCols_concat comp_def)
qed

lemma ColumnsString_Cons:
  assumes "cols m = c # rest"
  shows "ColumnsString m = Inr (c @ concat (map (\<lambda>x. EncodeRune (Comma m) @ x) rest))"
proof (cases rest)
  case Nil
  with assms show ?thesis by (simp add: ColumnsString_def)
next
  case (Cons d ds)
  have "0 \<le> sum_list (map (\<lambda>c. int (length c)) (cols m))"
    by (rule sum_list_nonneg_int) simp
  then have "Grow (int (length (cols m)) - 1 + sum_list (map (\<lambda>c. int (length c)) (cols m))) = Inr ()"
    using assms by (simp add: Grow_def)
  then show ?thesis using assms Cons
    by (simp add: ColumnsString_def Let_def WriteCols_concat)
qed

lemma TrimPrefix_append: "TrimPrefix (pfx @ c) pfx = c"
  by (simp add: TrimPrefix_def)

text \<open>
  C8, as amended.  For a mapper with at least one column: when every column is
  separable by the encoding of \<^verbatim>\<open>Comma\<close>, splitting \<^verbatim>\<open>ColumnsString()\<close> on it gives
  \<^verbatim>\<open>Columns()\<close>; when every column with the prefix before it is separable, splitting
  \<^verbatim>\<open>ColumnsStringPrefix(p)\<close> and stripping the prefix from each piece gives
  \<^verbatim>\<open>Columns()\<close>.
\<close>

theorem C8_round_trip:
  assumes "cols m \<noteq> []"
  shows "((\<forall>c \<in> set (cols m). separable (EncodeRune (Comma m)) c) \<longrightarrow>
           (\<exists>s. ColumnsString m = Inr s \<and> Split s (EncodeRune (Comma m)) = Columns m))
       \<and> ((\<forall>c \<in> set (cols m). separable (EncodeRune (Comma m)) (pfx @ c)) \<longrightarrow>
           (\<exists>s. ColumnsStringPrefix m pfx = Inr s
               \<and> map (\<lambda>x. TrimPrefix x pfx) (Split s (EncodeRune (Comma m))) = Columns m))"
proof -
  let ?sep = "EncodeRune (Comma m)"
  have sep: "?sep \<noteq> []" by (rule EncodeRune_not_Nil)
  from assms obtain c rest where cs: "cols m = c # rest" by (cases "cols m") auto
  have 1: "\<exists>s. ColumnsString m = Inr s \<and> Split s ?sep = Columns m"
    if "\<forall>c \<in> set (cols m). separable ?sep c"
  proof -
    from that cs have "\<forall>x \<in> set (c # rest). separable ?sep x" by simp
    from Split_from_pieces [OF sep this] show ?thesis
      using sep by (simp add: ColumnsString_Cons [OF cs] Split_def Columns_def cs)
  qed
  have 2: "\<exists>s. ColumnsStringPrefix m pfx = Inr s
               \<and> map (\<lambda>x. TrimPrefix x pfx) (Split s ?sep) = Columns m"
    if "\<forall>c \<in> set (cols m). separable ?sep (pfx @ c)"
  proof -
    from that cs have "\<forall>x \<in> set ((pfx @ c) # map ((@) pfx) rest). separable ?sep x" by simp
    from Split_from_pieces [OF sep this]
    have "Split (projr (ColumnsStringPrefix m pfx)) ?sep = map ((@) pfx) (cols m)"
      using sep by (simp add: ColumnsStringPrefix_Cons [OF cs] Split_def cs)
    then show ?thesis
      by (simp add: ColumnsStringPrefix_Cons [OF cs] Columns_def comp_def TrimPrefix_append)
  qed
  from 1 2 show ?thesis by blast
qed

theorem C8_round_trip_witness:
  "ColumnsString abcd_mapper = Inr ''a,b,c,d''
   \<and> Split ''a,b,c,d'' '','' = Columns abcd_mapper
   \<and> ColumnsStringPrefix abcd_mapper ''t.'' = Inr ''t.a,t.b,t.c,t.d''
   \<and> map (\<lambda>x. TrimPrefix x ''t.'') (Split ''t.a,t.b,t.c,t.d'' '','') = Columns abcd_mapper"
proof -
  have c: "cols abcd_mapper \<noteq> []" by (simp add: abcd_mapper_def)
  have sep: "EncodeRune (Comma abcd_mapper) = '',''"
    by (simp add: abcd_mapper_def EncodeRune_comma)
  have 1: "\<forall>c \<in> set (cols abcd_mapper). separable (EncodeRune (Comma abcd_mapper)) c"
    unfolding sep separable_single by (simp add: abcd_mapper_def)
  have 2: "\<forall>c \<in> set (cols abcd_mapper). separable (EncodeRune (Comma abcd_mapper)) (''t.'' @ c)"
    unfolding sep separable_single by (simp add: abcd_mapper_def)
  have s1: "ColumnsString abcd_mapper = Inr ''a,b,c,d''"
    by (simp add: ColumnsString_def abcd_mapper_def Grow_def EncodeRune_comma)
  have s2: "ColumnsStringPrefix abcd_mapper ''t.'' = Inr ''t.a,t.b,t.c,t.d''"
    by (simp add: ColumnsStringPrefix_def abcd_mapper_def Grow_def EncodeRune_comma)
  from C8_round_trip [OF c, of "''t.''"] 1 2 s1 s2 sep show ?thesis by simp
qed

text \<open>
  The claim as stated fails on the mapper of a struct whose tag value holds a comma:
  \<^verbatim>\<open>ColumnsString()\<close> is \<^verbatim>\<open>a,b\<close>, which splits into two pieces, while \<^verbatim>\<open>Columns()\<close> has
  the one column \<^verbatim>\<open>a,b\<close>.
\<close>

theorem C8_round_trip_counterexample:
  "MapperWithKey (zero_struct ''mapper.M'' M_comma) ''mapper'' [''*''] = Inr comma_mapper
   \<and> Columns comma_mapper = [''a,b'']
   \<and> ColumnsString comma_mapper = Inr ''a,b''
   \<and> Split ''a,b'' (EncodeRune (Comma comma_mapper)) = [''a'', ''b'']
   \<and> Split ''a,b'' (EncodeRune (Comma comma_mapper)) \<noteq> Columns comma_mapper"
proof -
  have "MapperWithKey (zero_struct ''mapper.M'' M_comma) ''mapper'' [''*''] = Inr comma_mapper"
    by (simp add: MapperWithKey_def zero_struct_def M_comma_def comma_mapper_def NumField_def
        MapperLoop.simps(2) IsExported_def HasSuffix_def index_def string_T_def suffix_to_prefix)
  moreover have "ColumnsString comma_mapper = Inr ''a,b''"
    by (simp add: ColumnsString_def comma_mapper_def)
  moreover have "Split ''a,b'' (EncodeRune (Comma comma_mapper)) = [''a'', ''b'']"
    by (simp add: comma_mapper_def EncodeRune_comma Split_def)
  moreover have "Columns comma_mapper = [''a,b'']"
    by (simp add: Columns_def comma_mapper_def)
  ultimately show ?thesis by simp
qed

lemma MarksLoop_concat:
  "MarksLoop comma mark k b = b @ concat (replicate k (EncodeRune comma @ EncodeRune mark))"
  by (induction k arbitrary: b) simp_all

lemma Join_replicate: "Join (replicate (Suc k) x) sep = x @ concat (replicate k (sep @ x))"
  by (induction k) simp_all

text \<open>On a mapper with at least one column \<^verbatim>\<open>Marks\<close> is as its comment says.\<close>

lemma Marks_nonempty:
  assumes "cols m \<noteq> []"
  shows "Marks m = Inr (Join (replicate (length (cols m)) (EncodeRune (Mark m))) (EncodeRune (Comma m)))"
proof -
  from assms obtain k where k: "length (cols m) = Suc k" by (cases "cols m") auto
  show ?thesis
  proof (cases k)
    case 0
    with k show ?thesis by (simp add: Marks_def)
  next
    case (Suc k')
    with k show ?thesis
      by (simp add: Marks_def Grow_def MarksLoop_concat Join_replicate del: replicate_Suc Join.simps)
  qed
qed

text \<open>
  C9.  \<^verbatim>\<open>Subset()\<close> with no names returns a mapper with no columns (the test file asks for
  it); on that mapper \<^verbatim>\<open>Marks\<close> computes the count \<^verbatim>\<open>2*0 - 1\<close> for \<^verbatim>\<open>Grow\<close>, which
  panics, where the claim and the comment of \<^verbatim>\<open>Marks\<close> have the empty string.
\<close>

theorem C9_Marks_no_columns:
  "Subset [abcd_mapper] 0 [] = Inr ([abcd_mapper, abcd_mapper\<lparr>cols := [], fields' := []\<rparr>], 1)
   \<and> Columns (abcd_mapper\<lparr>cols := [], fields' := []\<rparr>) = []
   \<and> Marks (abcd_mapper\<lparr>cols := [], fields' := []\<rparr>)
       = Inl (Str ''strings.Builder.Grow: negative count'')"
  by (simp add: Subset_def Columns_def Marks_def Grow_def abcd_mapper_def)

section \<open>Addrs and Values\<close>

lemma ToLower_A: "ToLower ''A'' = ''a''"
  by code_simp

lemma ToLower_B: "ToLower ''B'' = ''b''"
  by code_simp

lemma a_mapper_built:
  "MapperWithKey (zero_struct ''mapper.M'' M_ab) ''mapper'' [''a''] = Inr a_mapper"
  by (simp add: MapperWithKey_def zero_struct_def M_ab_def a_mapper_def NumField_def
      MapperLoop.simps(2) IsExported_def HasSuffix_def index_def string_T_def swap_remove_def
      ToLower_A ToLower_B)

lemma AddrsLoop_struct:
  assumes "map fst fvs = fs" "\<forall>j \<in> set js. j < length fs \<and> IsExported (fs ! j)"
  shows "AddrsLoop (Val (StructT n fs) (StructV n fvs) (Some r) False) js res
         = Inr (res @ map (\<lambda>j. PtrV (Type (fs ! j)) (Some (FieldRef r j))) js)"
  using assms(2)
proof (induction js arbitrary: res)
  case Nil
  then show ?case by simp
next
  case (Cons j js)
  then have j: "j < length fvs" "IsExported (fst (fvs ! j))" "fst (fvs ! j) = fs ! j"
    using assms(1) by auto
  then show ?case using Cons by simp
qed

lemma ValuesLoop_struct:
  assumes "map fst fvs = fs" "\<forall>j \<in> set js. j < length fs \<and> IsExported (fs ! j)"
  shows "ValuesLoop (Val (StructT n fs) (StructV n fvs) a False) js res
         = Inr (res @ map (\<lambda>j. snd (fvs ! j)) js)"
  using assms(2)
proof (induction js arbitrary: res)
  case Nil
  then show ?case by simp
next
  case (Cons j js)
  then have j: "j < length fvs" "IsExported (fst (fvs ! j))"
    using assms(1) by auto
  then show ?case using Cons by simp
qed

lemma Addrs_not_pointer:
  assumes "TypeOf dest = Some t" "Kind t \<noteq> Pointer"
  shows "Addrs s m dest = Inl (Str ''destination not a pointer'')"
  using assms by (cases dest) (auto simp: Addrs_def)

lemma Addrs_not_struct_pointer:
  assumes "load s r = Some x" "Kind t \<noteq> Struct"
  shows "Addrs s m (PtrV t (Some r)) = Inl (Str ''destination not a struct pointer'')"
  using assms by (simp add: Addrs_def)

lemma Addrs_nil:
  "Addrs s m NilV = Inl (ValueError ''reflect.Value.Type'' Invalid)"
  "Addrs s m (PtrV t None) = Inl (ValueError ''reflect.Value.Type'' Invalid)"
  by (simp_all add: Addrs_def)

lemma Values_nil:
  "Values s m NilV = Inl (RuntimeError ''invalid memory address or nil pointer dereference'')"
  by (simp add: Values_def)

text \<open>
  C6, as amended.  For a mapper whose field positions are those of exported fields of
  its target struct type: \<^verbatim>\<open>Addrs\<close> panics with \<^verbatim>\<open>destination not a pointer\<close> on an
  instance that is not a pointer, with \<^verbatim>\<open>destination not a struct pointer\<close> on a pointer
  to a value that is not a struct, and it panics on nil and on a nil pointer;
  \<^verbatim>\<open>Values\<close> panics on nil.  On a pointer to a struct of the target type \<^verbatim>\<open>Addrs\<close>
  returns the references to the fields of the instance at the mapped positions, in the
  order of the columns, each of which holds the value of that field; on such a pointer
  and on a struct of the target type \<^verbatim>\<open>Values\<close> returns the values of these fields.
  Neither function compares the type of the instance with the target type.
\<close>

theorem C6_Addrs_Values:
  assumes "target m = Some (StructT n fs)"
      and "\<forall>j \<in> set (fields' m). j < length fs \<and> IsExported (fs ! j)"
  shows "(\<forall>t. TypeOf dest = Some t \<and> Kind t \<noteq> Pointer
              \<longrightarrow> Addrs s m dest = Inl (Str ''destination not a pointer''))
       \<and> (\<forall>t r x. load s r = Some x \<and> Kind t \<noteq> Struct
              \<longrightarrow> Addrs s m (PtrV t (Some r)) = Inl (Str ''destination not a struct pointer''))
       \<and> (\<exists>e. Addrs s m NilV = Inl e) \<and> (\<forall>t. \<exists>e. Addrs s m (PtrV t None) = Inl e)
       \<and> (\<exists>e. Values s m NilV = Inl e)
       \<and> (\<forall>r fvs. map fst fvs = fs \<and> load s r = Some (StructV n fvs) \<longrightarrow>
             Addrs s m (PtrV (StructT n fs) (Some r))
               = Inr (map (\<lambda>j. PtrV (Type (fs ! j)) (Some (FieldRef r j))) (fields' m))
           \<and> (\<forall>j \<in> set (fields' m). load s (FieldRef r j) = Some (snd (fvs ! j)))
           \<and> Values s m (PtrV (StructT n fs) (Some r)) = Inr (map (\<lambda>j. snd (fvs ! j)) (fields' m))
           \<and> Values s m (StructV n fvs) = Inr (map (\<lambda>j. snd (fvs ! j)) (fields' m)))"
proof -
  have ok: "Addrs s m (PtrV (StructT n fs) (Some r))
               = Inr (map (\<lambda>j. PtrV (Type (fs ! j)) (Some (FieldRef r j))) (fields' m))
           \<and> (\<forall>j \<in> set (fields' m). load s (FieldRef r j) = Some (snd (fvs ! j)))
           \<and> Values s m (PtrV (StructT n fs) (Some r)) = Inr (map (\<lambda>j. snd (fvs ! j)) (fields' m))
           \<and> Values s m (StructV n fvs) = Inr (map (\<lambda>j. snd (fvs ! j)) (fields' m))"
    if f: "map fst fvs = fs" and l: "load s r = Some (StructV n fvs)" for r fvs
  proof -
    have len: "length fvs = length fs" using f by auto
    have 1: "Addrs s m (PtrV (StructT n fs) (Some r))
               = Inr (map (\<lambda>j. PtrV (Type (fs ! j)) (Some (FieldRef r j))) (fields' m))"
      using AddrsLoop_struct [OF f assms(2), of n r "[]"] l by (simp add: Addrs_def)
    have 2: "\<forall>j \<in> set (fields' m). load s (FieldRef r j) = Some (snd (fvs ! j))"
      using assms(2) l len by simp
    have 3: "Values s m (PtrV (StructT n fs) (Some r)) = Inr (map (\<lambda>j. snd (fvs ! j)) (fields' m))"
      using ValuesLoop_struct [OF f assms(2), of n "Some r" "[]"] l
      by (simp add: Values_def reflect_Value_def)
    have 4: "Values s m (StructV n fvs) = Inr (map (\<lambda>j. snd (fvs ! j)) (fields' m))"
      using ValuesLoop_struct [OF f assms(2), of n None "[]"] f
      by (simp add: Values_def reflect_Value_def)
    from 1 2 3 4 show ?thesis by blast
  qed
  show ?thesis
    using Addrs_not_pointer [of dest _ s m] Addrs_not_struct_pointer [of s _ _ _ m]
      Addrs_nil [of s m] Values_nil [of s m] ok
    by (intro conjI allI impI) (auto simp del: load.simps)
qed

theorem C6_Addrs_Values_witness:
  "Addrs [StructV ''mapper.M'' (zip M_ab [ScalarV string_T ''x'', ScalarV string_T ''y''])] a_mapper
      (PtrV (StructT ''mapper.M'' M_ab) (Some (VarRef 0)))
     = Inr [PtrV string_T (Some (FieldRef (VarRef 0) 0))]
   \<and> Values [StructV ''mapper.M'' (zip M_ab [ScalarV string_T ''x'', ScalarV string_T ''y''])] a_mapper
      (PtrV (StructT ''mapper.M'' M_ab) (Some (VarRef 0)))
     = Inr [ScalarV string_T ''x'']
   \<and> Addrs [] a_mapper (StructV ''mapper.M'' (zip M_ab [ScalarV string_T ''x'', ScalarV string_T ''y'']))
     = Inl (Str ''destination not a pointer'')
   \<and> Addrs [ScalarV int32_T ''7''] a_mapper (PtrV int32_T (Some (VarRef 0)))
     = Inl (Str ''destination not a struct pointer'')"
proof -
  let ?fvs = "zip M_ab [ScalarV string_T ''x'', ScalarV string_T ''y'']"
  let ?v = "StructV ''mapper.M'' ?fvs"
  have t: "target a_mapper = Some (StructT ''mapper.M'' M_ab)" by (simp add: a_mapper_def)
  have f: "\<forall>j \<in> set (fields' a_mapper). j < length M_ab \<and> IsExported (M_ab ! j)"
    by (simp add: a_mapper_def M_ab_def IsExported_def)
  have m: "map fst ?fvs = M_ab" by (simp add: M_ab_def)
  have l: "load [?v] (VarRef 0) = Some ?v" by simp
  have k: "TypeOf ?v = Some (StructT ''mapper.M'' M_ab)" "Kind (StructT ''mapper.M'' M_ab) \<noteq> Pointer"
    using m by simp_all
  have i: "load [ScalarV int32_T ''7''] (VarRef 0) = Some (ScalarV int32_T ''7'')"
    "Kind int32_T \<noteq> Struct"
    by (simp_all add: int32_T_def)
  note c6 = C6_Addrs_Values [OF t f]
  have 1: "Addrs [?v] a_mapper (PtrV (StructT ''mapper.M'' M_ab) (Some (VarRef 0)))
        = Inr (map (\<lambda>j. PtrV (Type (M_ab ! j)) (Some (FieldRef (VarRef 0) j))) (fields' a_mapper))"
    and 2: "Values [?v] a_mapper (PtrV (StructT ''mapper.M'' M_ab) (Some (VarRef 0)))
        = Inr (map (\<lambda>j. snd (?fvs ! j)) (fields' a_mapper))"
    using c6 [of _ "[?v]"] m l by blast+
  have 3: "Addrs [] a_mapper ?v = Inl (Str ''destination not a pointer'')"
    using c6 [of ?v "[]"] k by blast
  have 4: "Addrs [ScalarV int32_T ''7''] a_mapper (PtrV int32_T (Some (VarRef 0)))
     = Inl (Str ''destination not a struct pointer'')"
    using c6 [of _ "[ScalarV int32_T ''7'']"] i by blast
  have "map (\<lambda>j. PtrV (Type (M_ab ! j)) (Some (FieldRef (VarRef 0) j))) (fields' a_mapper)
        = [PtrV string_T (Some (FieldRef (VarRef 0) 0))]"
    by (simp add: a_mapper_def M_ab_def)
  moreover have "map (\<lambda>j. snd (?fvs ! j)) (fields' a_mapper) = [ScalarV string_T ''x'']"
    by (simp add: a_mapper_def M_ab_def)
  ultimately show ?thesis using 1 2 3 4 by simp
qed

text \<open>
  The claim as stated fails on a pointer to a struct of another type: the mapper built
  for \<^verbatim>\<open>M\<close> takes a pointer to an \<^verbatim>\<open>N\<close>, and an \<^verbatim>\<open>N\<close>, and returns the reference to and the
  value of its first field.
\<close>

theorem C6_Addrs_Values_counterexample:
  "MapperWithKey (zero_struct ''mapper.M'' M_ab) ''mapper'' [''a''] = Inr a_mapper
   \<and> Some (StructT ''mapper.N'' N_x) \<noteq> target a_mapper
   \<and> Addrs [zero_struct ''mapper.N'' N_x] a_mapper (PtrV (StructT ''mapper.N'' N_x) (Some (VarRef 0)))
       = Inr [PtrV int32_T (Some (FieldRef (VarRef 0) 0))]
   \<and> Values [] a_mapper (zero_struct ''mapper.N'' N_x) = Inr [ScalarV int32_T []]"
  by (simp add: a_mapper_built)
     (simp add: a_mapper_def Addrs_def Values_def zero_struct_def N_x_def M_ab_def reflect_Value_def
       IsExported_def)

end
